theory Spec2Isabelle
  imports Main "HOL-Library.Char_ord" "HOL-Library.List_Lexorder" "HOL-Library.Multiset"
begin

section \<open>ipymarkup: spans, their order, and the renderers of markup.py\<close>

text \<open>
  A shallow embedding of \<^verbatim>\<open>ipymarkup/markup.py\<close>. Python integers are \<open>int\<close>, Python
  strings are \<open>string\<close> (a character is a code point below 256, compared by code point),
  an optional category is a \<open>string option\<close> (\<open>None\<close> is Python's \<^verbatim>\<open>None\<close>), and every
  \<^verbatim>\<open>raise\<close> is a value \<open>Inl e\<close> of a sum type.
\<close>

subsection \<open>Errors and argument values\<close>

datatype error = TypeError | ValueError | IndexError

text \<open>
  The values a caller may pass where the constructor checks the type at run time:
  \<^verbatim>\<open>None\<close>, an integer or a string.
\<close>

datatype pyval = PyNone | PyInt int | PyStr string

datatype pytype = T_int | T_str | T_NoneType

fun type_of :: "pyval \<Rightarrow> pytype" where
  "type_of PyNone = T_NoneType"
| "type_of (PyInt _) = T_int"
| "type_of (PyStr _) = T_str"

text \<open>
  Modelled from the spec: \<^verbatim>\<open>assert_type\<close> of \<^verbatim>\<open>ipymarkup/utils.py\<close>, which is not among the
  sources. The spec has construction fail with a type error when an offset is not an
  integer; the helper returns nothing otherwise.
\<close>

definition assert_type :: "pyval \<Rightarrow> pytype \<Rightarrow> error option" where
  "assert_type item t = (if type_of item = t then None else Some TypeError)"

subsection \<open>Span\<close>

record Span =
  start :: int
  stop :: int
  type :: "string option"

text \<open>
  \<^verbatim>\<open>Span.__init__\<close>: both offsets are type-checked first, then the range is checked, then
  the three attributes are stored.
\<close>

definition Span_init :: "pyval \<Rightarrow> pyval \<Rightarrow> string option \<Rightarrow> error + Span" where
  "Span_init start' stop' type' =
     (case assert_type start' T_int of
        Some e \<Rightarrow> Inl e
      | None \<Rightarrow>
          (case assert_type stop' T_int of
             Some e \<Rightarrow> Inl e
           | None \<Rightarrow>
               (case (start', stop') of
                  (PyInt a, PyInt b) \<Rightarrow>
                    if a \<ge> b then Inl ValueError
                    else Inr \<lparr>Span.start = a, Span.stop = b, Span.type = type'\<rparr>
                | _ \<Rightarrow> Inl TypeError)))"

text \<open>\<^verbatim>\<open>Span.__lt__\<close>, branch by branch.\<close>

definition Span_lt :: "Span \<Rightarrow> Span \<Rightarrow> bool" where
  "Span_lt self other =
     (if Span.start self \<noteq> Span.start other then Span.start self < Span.start other
      else if Span.stop self \<noteq> Span.stop other then Span.stop self < Span.stop other
      else if Span.type self \<noteq> Span.type other then
        (case Span.type self of
           None \<Rightarrow> True
         | Some s \<Rightarrow>
             (case Span.type other of
                None \<Rightarrow> False
              | Some t \<Rightarrow> s < t))
      else False)"

text \<open>
  Python's built-in \<^verbatim>\<open>sorted\<close> is a stable sort that compares with \<^verbatim>\<open>__lt__\<close> only. A
  stable insertion sort computes the same list: an element moves past exactly those
  elements that are smaller than it.
\<close>

fun insert_py :: "Span \<Rightarrow> Span list \<Rightarrow> Span list" where
  "insert_py x [] = [x]"
| "insert_py x (y # ys) = (if Span_lt y x then y # insert_py x ys else x # y # ys)"

fun sorted_py :: "Span list \<Rightarrow> Span list" where
  "sorted_py [] = []"
| "sorted_py (x # xs) = insert_py x (sorted_py xs)"

text \<open>A list is in order when no later element is smaller than an earlier one.\<close>

definition in_order :: "Span list \<Rightarrow> bool" where
  "in_order xs = sorted_wrt (\<lambda>a b. \<not> Span_lt b a) xs"

subsection \<open>Python's list and string primitives\<close>

text \<open>
  Indexing a list: a negative index counts from the end, and an index outside the list
  raises \<^verbatim>\<open>IndexError\<close>.
\<close>

definition getitem :: "'a list \<Rightarrow> int \<Rightarrow> error + 'a" where
  "getitem xs i =
     (let n = int (length xs); j = (if i < 0 then i + n else i)
      in if 0 \<le> j \<and> j < n then Inr (xs ! nat j) else Inl IndexError)"

definition setitem :: "'a list \<Rightarrow> int \<Rightarrow> 'a \<Rightarrow> error + 'a list" where
  "setitem xs i v =
     (let n = int (length xs); j = (if i < 0 then i + n else i)
      in if 0 \<le> j \<and> j < n then Inr (xs[nat j := v]) else Inl IndexError)"

text \<open>
  Slicing never raises: a negative bound counts from the end, and both bounds are then
  clamped to the string. \<open>slice s a b\<close> is \<^verbatim>\<open>s[a:b]\<close>, \<open>slice_from s a\<close> is \<^verbatim>\<open>s[a:]\<close> and
  \<open>slice_to s b\<close> is \<^verbatim>\<open>s[:b]\<close>.
\<close>

definition clamp_index :: "nat \<Rightarrow> int \<Rightarrow> nat" where
  "clamp_index n i = (if i < 0 then nat (max (i + int n) 0) else min (nat i) n)"

definition slice :: "'a list \<Rightarrow> int \<Rightarrow> int \<Rightarrow> 'a list" where
  "slice s a b =
     (let lo = clamp_index (length s) a; hi = clamp_index (length s) b
      in take (hi - lo) (drop lo s))"

definition slice_from :: "'a list \<Rightarrow> int \<Rightarrow> 'a list" where
  "slice_from s a = drop (clamp_index (length s) a) s"

definition slice_to :: "'a list \<Rightarrow> int \<Rightarrow> 'a list" where
  "slice_to s b = take (clamp_index (length s) b) s"

text \<open>
  \<^verbatim>\<open>str.splitlines\<close>: the line boundaries among the code points below 256 are LF, VT, FF,
  CR, FS, GS, RS and NEL, and CR LF counts as one boundary. The boundaries are dropped,
  and a boundary at the very end of the text opens no further line.
\<close>

definition line_boundary :: "char \<Rightarrow> bool" where
  "line_boundary c \<longleftrightarrow>
     c \<in> set [CHR 0x0A, CHR 0x0B, CHR 0x0C, CHR 0x0D, CHR 0x1C, CHR 0x1D, CHR 0x1E, CHR 0x85]"

fun splitlines_from :: "string \<Rightarrow> string \<Rightarrow> string list" where
  "splitlines_from cur [] = (if cur = [] then [] else [cur])"
| "splitlines_from cur [c] = (if line_boundary c then [cur] else [cur @ [c]])"
| "splitlines_from cur (c # d # cs) =
     (if c = CHR 0x0D \<and> d = CHR 0x0A then cur # splitlines_from [] cs
      else if line_boundary c then cur # splitlines_from [] (d # cs)
      else splitlines_from (cur @ [c]) (d # cs))"

definition splitlines :: "string \<Rightarrow> string list" where
  "splitlines s = splitlines_from [] s"

text \<open>\<^verbatim>\<open>line.replace('\t', ' ')\<close>.\<close>

definition replace_tab :: "string \<Rightarrow> string" where
  "replace_tab line = map (\<lambda>c. if c = CHR 0x09 then CHR '' '' else c) line"

text \<open>The truth value of an optional string: \<^verbatim>\<open>None\<close> and the empty string are false.\<close>

fun truthy :: "string option \<Rightarrow> bool" where
  "truthy None = False"
| "truthy (Some s) = (s \<noteq> [])"

text \<open>\<^verbatim>\<open>str(text)\<close> on the modelled argument values.\<close>

fun string_of_nat :: "nat \<Rightarrow> string" where
  "string_of_nat n =
     (if n < 10 then [''0123456789'' ! n]
      else string_of_nat (n div 10) @ [''0123456789'' ! (n mod 10)])"

declare string_of_nat.simps [simp del]

fun str :: "pyval \<Rightarrow> string" where
  "str PyNone = ''None''"
| "str (PyInt i) = (if i < 0 then ''-'' @ string_of_nat (nat (- i)) else string_of_nat (nat i))"
| "str (PyStr s) = s"

text \<open>
  A \<^verbatim>\<open>for\<close> loop whose body may raise: the state is threaded through the elements in
  order, and the first error ends the loop.
\<close>

fun for_each :: "('a \<Rightarrow> 's \<Rightarrow> error + 's) \<Rightarrow> 'a list \<Rightarrow> 's \<Rightarrow> error + 's" where
  "for_each body [] s = Inr s"
| "for_each body (x # xs) s =
     (case body x s of Inl e \<Rightarrow> Inl e | Inr s' \<Rightarrow> for_each body xs s')"

subsection \<open>Wrapper\<close>

text \<open>
  \<^verbatim>\<open>Wrapper\<close> is the standard library's \<^verbatim>\<open>textwrap.TextWrapper\<close> with tab expansion,
  whitespace replacement and whitespace dropping switched off. The library's line
  breaking algorithm is not code of this repository: it is a parameter \<open>tw\<close>, which
  maps a positive width and a line to the line's folds. What the library does before it
  breaks anything is modelled: a width that is not positive raises \<^verbatim>\<open>ValueError\<close>.
\<close>

record Wrapper =
  width :: int

type_synonym textwrap = "nat \<Rightarrow> string \<Rightarrow> string list"

definition wrap :: "textwrap \<Rightarrow> Wrapper \<Rightarrow> string \<Rightarrow> error + string list" where
  "wrap tw self line =
     (if width self \<le> 0 then Inl ValueError else Inr (tw (nat (width self)) line))"

text \<open>
  With whitespace dropping off, the library's folds are pieces of the line in order:
  joined, they give the line back.
\<close>

definition lossless :: "textwrap \<Rightarrow> bool" where
  "lossless tw \<longleftrightarrow> (\<forall>w line. 0 < w \<longrightarrow> concat (tw w line) = line)"

text \<open>
  One instance, for running the renderer on examples: a line is cut every \<open>w\<close>
  characters. The library returns these folds for a line that fits the width, for a
  line that is a single unbreakable word, and for \<^verbatim>\<open>"ab cd"\<close> at width 3 (\<^verbatim>\<open>"ab "\<close>, then
  \<^verbatim>\<open>"cd"\<close>); the examples below use no other line.
\<close>

fun chop :: textwrap where
  "chop w line =
     (if w = 0 \<or> line = [] then (if line = [] then [] else [line])
      else take w line # chop w (drop w line))"

declare chop.simps [simp del]

text \<open>
  \<^verbatim>\<open>Wrapper.__call__\<close>. The inner loop turns the folds of one line into triples and
  advances \<open>start\<close>; the outer loop walks the enumerated lines, appending a space to
  every line but the last.
\<close>

fun call_folds :: "int \<Rightarrow> string list \<Rightarrow> (int \<times> int \<times> string) list \<times> int" where
  "call_folds start' [] = ([], start')"
| "call_folds start' (fold' # folds) =
     (let stop' = start' + int (length fold');
          (out, start'') = call_folds stop' folds
      in ((start', stop', fold') # out, start''))"

fun call_lines ::
  "textwrap \<Rightarrow> Wrapper \<Rightarrow> nat \<Rightarrow> int \<Rightarrow> (nat \<times> string) list \<Rightarrow> error + (int \<times> int \<times> string) list"
where
  "call_lines tw self n start' [] = Inr []"
| "call_lines tw self n start' ((index, line) # rest) =
     (let line' = (if int index < int n - 1 then line @ '' '' else line)
      in case wrap tw self line' of
           Inl e \<Rightarrow> Inl e
         | Inr folds \<Rightarrow>
             (let (out, start'') = call_folds start' folds
              in case call_lines tw self n start'' rest of
                   Inl e \<Rightarrow> Inl e
                 | Inr out' \<Rightarrow> Inr (out @ out')))"

definition Wrapper_call :: "textwrap \<Rightarrow> Wrapper \<Rightarrow> string \<Rightarrow> error + (int \<times> int \<times> string) list" where
  "Wrapper_call tw self text'' =
     (let lines' = splitlines text''
      in call_lines tw self (length lines') 0 (enumerate 0 lines'))"

subsection \<open>Markup\<close>

text \<open>
  The layout types of \<^verbatim>\<open>ipymarkup/multiline.py\<close>, which is not among the sources, with
  the attributes \<^verbatim>\<open>markup.py\<close> reads and the constructor call it makes: a row has
  \<^verbatim>\<open>start\<close>, \<^verbatim>\<open>stop\<close>, \<^verbatim>\<open>type\<close> and \<^verbatim>\<open>level\<close>, a group has \<^verbatim>\<open>start\<close>, \<^verbatim>\<open>stop\<close> and \<^verbatim>\<open>lines\<close>.
\<close>

record Line =
  start :: int
  stop :: int
  type :: "string option"
  level :: int

record Multiline =
  start :: int
  stop :: int
  lines :: "Line list"

text \<open>
  \<^verbatim>\<open>Markup.__init__\<close>. The layout function \<^verbatim>\<open>get_multilines\<close> of the absent module is the
  parameter \<open>gm\<close>. The attribute \<^verbatim>\<open>text\<close> is the field \<open>text'\<close>. The elements of \<open>spans\<close> are spans by their type, so the
  \<^verbatim>\<open>assert_type(span, Span)\<close> of the loop always passes.
\<close>

record Markup =
  text' :: string
  spans :: "Span list"
  multilines :: "Multiline list"

type_synonym get_multilines = "Span list \<Rightarrow> Multiline list"

definition Markup_init :: "get_multilines \<Rightarrow> pyval \<Rightarrow> Span list \<Rightarrow> Markup" where
  "Markup_init gm text'' spans' =
     (let sorted_spans = sorted_py spans'
      in \<lparr>text' = str text'', spans = sorted_spans, multilines = gm sorted_spans\<rparr>)"

subsection \<open>AsciiMarkup\<close>

record AsciiMarkup = Markup +
  wrapper :: Wrapper

definition AsciiMarkup_init :: "get_multilines \<Rightarrow> pyval \<Rightarrow> Span list \<Rightarrow> int \<Rightarrow> AsciiMarkup" where
  "AsciiMarkup_init gm text'' spans' width' =
     (let m = Markup_init gm text'' spans'
      in \<lparr>text' = text' m, spans = spans m, multilines = multilines m,
          wrapper = \<lparr>width = width'\<rparr>\<rparr>)"

text \<open>
  The \<^verbatim>\<open>while\<close> loop of \<^verbatim>\<open>as_ascii\<close> that collects the slices of one wrapped line. It
  returns the slices and the index at which the next line resumes.
\<close>

function select ::
  "Multiline list \<Rightarrow> int \<Rightarrow> int \<Rightarrow> nat \<Rightarrow> Multiline list \<Rightarrow> Multiline list \<times> nat"
where
  "select ms start' stop' index slices =
     (if index < length ms then
        (let multi = ms ! index
         in if Multiline.start multi \<ge> stop' then (slices, index)
            else
              (let slice' = \<lparr>Multiline.start = max (Multiline.start multi) start',
                            Multiline.stop = min (Multiline.stop multi) stop',
                            Multiline.lines = Multiline.lines multi\<rparr>;
                   slices' = slices @ [slice']
               in if Multiline.stop multi \<le> stop' then select ms start' stop' (index + 1) slices'
                  else (slices', index)))
      else (slices, index))"
  by pat_completeness auto
termination
  by (relation "measure (\<lambda>(ms, start', stop', index, slices). length ms - index)") auto

declare select.simps [simp del]

text \<open>
  \<^verbatim>\<open>max(line.level for slice in slices for line in slice.lines)\<close>: the maximum of an
  empty sequence raises \<^verbatim>\<open>ValueError\<close>.
\<close>

definition levels :: "Multiline list \<Rightarrow> int list" where
  "levels slices = concat (map (\<lambda>slice'. map Line.level (Multiline.lines slice')) slices)"

definition max_py :: "int list \<Rightarrow> error + int" where
  "max_py xs = (case xs of [] \<Rightarrow> Inl ValueError | x # rest \<Rightarrow> Inr (fold max rest x))"

text \<open>\<^verbatim>\<open>matrix[r][c] = ch\<close>: the row is looked up, then its cell is assigned.\<close>

definition set_cell :: "string list \<Rightarrow> int \<Rightarrow> int \<Rightarrow> char \<Rightarrow> error + string list" where
  "set_cell matrix r c ch =
     (case getitem matrix r of
        Inl e \<Rightarrow> Inl e
      | Inr row \<Rightarrow>
          (case setitem row c ch of
             Inl e \<Rightarrow> Inl e
           | Inr row' \<Rightarrow> setitem matrix r row'))"

text \<open>The first painting pass: a dash for every row of every slice, across the slice.\<close>

definition paint_dashes :: "int \<Rightarrow> Multiline list \<Rightarrow> string list \<Rightarrow> error + string list" where
  "paint_dashes start' slices matrix =
     for_each (\<lambda>slice'.
       for_each (\<lambda>line.
         for_each (\<lambda>x m. set_cell m (Line.level line) (x - start') CHR ''-'')
           [Multiline.start slice' .. Multiline.stop slice' - 1])
         (Multiline.lines slice'))
       slices matrix"

text \<open>
  The second pass: the label of every row that has one and starts where the slice
  starts, cut to \<^verbatim>\<open>min(size, space)\<close> characters. \<open>category\<close> is \<^verbatim>\<open>line.type\<close> read as a
  string; the loop reads it only where \<^verbatim>\<open>line.type\<close> is true, so where it is a string
  that is not empty.
\<close>

definition category :: "Line \<Rightarrow> string" where
  "category line = (case Line.type line of None \<Rightarrow> [] | Some t \<Rightarrow> t)"

definition label_text :: "int \<Rightarrow> int \<Rightarrow> Multiline \<Rightarrow> Line \<Rightarrow> string" where
  "label_text start' width' slice' line =
     (let size' = Line.stop line - Line.start line;
          space = width' - (Multiline.start slice' - start')
      in slice_to (category line) (min size' space))"

definition paint_labels :: "int \<Rightarrow> int \<Rightarrow> Multiline list \<Rightarrow> string list \<Rightarrow> error + string list" where
  "paint_labels start' width' slices matrix =
     for_each (\<lambda>slice'.
       for_each (\<lambda>line m.
         if truthy (Line.type line) \<and> Line.start line = Multiline.start slice' then
           for_each (\<lambda>(x, char) m'.
               set_cell m' (Line.level line) (Multiline.start slice' - start' + int x) char)
             (enumerate 0 (label_text start' width' slice' line)) m
         else Inr m)
         (Multiline.lines slice'))
       slices matrix"

text \<open>
  The \<^verbatim>\<open>if slices:\<close> block: the annotation rows of one wrapped line, or no row at all
  when there is no slice.
\<close>

definition blank :: "int \<Rightarrow> int \<Rightarrow> string list" where
  "blank height width' = replicate (nat height) (replicate (nat width') CHR '' '')"

definition annotate :: "int \<Rightarrow> string \<Rightarrow> Multiline list \<Rightarrow> error + string list" where
  "annotate start' line slices =
     (if slices = [] then Inr []
      else
        (case max_py (levels slices) of
           Inl e \<Rightarrow> Inl e
         | Inr highest \<Rightarrow>
             (let height = highest + 1;
                  width' = int (length line)
              in case paint_dashes start' slices (blank height width') of
                   Inl e \<Rightarrow> Inl e
                 | Inr matrix \<Rightarrow> paint_labels start' width' slices matrix)))"

text \<open>
  The outer loop of \<^verbatim>\<open>as_ascii\<close> over the wrapped lines, with \<open>index\<close> carried from
  line to line. Every wrapped line gives a block: its content with tabs replaced, and
  its annotation rows. \<open>as_ascii\<close> is the sequence the generator yields: the blocks
  laid end to end.
\<close>

fun as_ascii_loop ::
  "Multiline list \<Rightarrow> nat \<Rightarrow> (int \<times> int \<times> string) list \<Rightarrow> error + (string \<times> string list) list"
where
  "as_ascii_loop ms index [] = Inr []"
| "as_ascii_loop ms index ((start', stop', line) # rest) =
     (let (slices, index') = select ms start' stop' index []
      in case annotate start' line slices of
           Inl e \<Rightarrow> Inl e
         | Inr rows \<Rightarrow>
             (case as_ascii_loop ms index' rest of
                Inl e \<Rightarrow> Inl e
              | Inr out \<Rightarrow> Inr ((replace_tab line, rows) # out)))"

definition as_ascii_blocks :: "textwrap \<Rightarrow> AsciiMarkup \<Rightarrow> error + (string \<times> string list) list" where
  "as_ascii_blocks tw self =
     (case Wrapper_call tw (wrapper self) (text' self) of
        Inl e \<Rightarrow> Inl e
      | Inr folds \<Rightarrow> as_ascii_loop (multilines self) 0 folds)"

definition as_ascii :: "textwrap \<Rightarrow> AsciiMarkup \<Rightarrow> error + string list" where
  "as_ascii tw self =
     (case as_ascii_blocks tw self of
        Inl e \<Rightarrow> Inl e
      | Inr blocks \<Rightarrow> Inr (concat (map (\<lambda>(content, rows). content # rows) blocks)))"

subsection \<open>BoxMarkup\<close>

text \<open>
  The colour tables of \<^verbatim>\<open>ipymarkup/color.py\<close>, which is not among the sources, are
  parameters: the three lookups and the three shades of yellow.
\<close>

record palette =
  BACKGROUND :: "string option \<Rightarrow> string"
  DARKER :: "string \<Rightarrow> string"
  EVEN_DARKER :: "string \<Rightarrow> string"
  YELLOW :: string
  DARK_YELLOW :: string
  DARKER_YELLOW :: string

text \<open>
  What the generator yields, tagged by the \<^verbatim>\<open>yield\<close> that produced it: a piece of
  markup, a slice of the document's text, or a span's label.
\<close>

datatype piece = Tag string | Text string | Label string

fun piece_string :: "piece \<Rightarrow> string" where
  "piece_string (Tag s) = s"
| "piece_string (Text s) = s"
| "piece_string (Label s) = s"

definition span_tag :: "string \<Rightarrow> string \<Rightarrow> string" where
  \<open>span_tag border background =
     ''<span style="'' @ ''padding: 0.15em; '' @ ''border-radius: 0.25em; '' @
     ''border: 1px solid '' @ border @ ''; '' @ ''background: '' @ background @ ''">''\<close>

definition sup_tag :: "string \<Rightarrow> string" where
  \<open>sup_tag color = ''<sup style="'' @ ''font-size: 0.7em; '' @ ''color: '' @ color @ '';'' @ ''">''\<close>

text \<open>
  The loop of \<^verbatim>\<open>BoxMarkup.as_html\<close> over the sorted spans, with \<open>previous\<close> carried
  along, and the two yields after the loop. \<open>label\<close> and \<open>color\<close> are the class
  attributes.
\<close>

fun as_html_loop :: "palette \<Rightarrow> bool \<Rightarrow> bool \<Rightarrow> string \<Rightarrow> int \<Rightarrow> Span list \<Rightarrow> piece list" where
  "as_html_loop pal label color text'' previous [] =
     [Text (slice_from text'' previous), Tag ''<div>'']"
| "as_html_loop pal label color text'' previous (span # rest) =
     (let start' = Span.start span;
          stop' = Span.stop span;
          type' = Span.type span;
          background = (if color then BACKGROUND pal type' else YELLOW pal);
          border = (if color then DARKER pal background else DARK_YELLOW pal);
          label' = (if color then EVEN_DARKER pal background else DARKER_YELLOW pal)
      in [Text (slice text'' previous start'),
          Tag (span_tag border background),
          Text (slice text'' start' stop')]
         @ (if label \<and> truthy type' then
              [Tag (sup_tag label'), Label (case type' of None \<Rightarrow> [] | Some t \<Rightarrow> t), Tag ''</sup>'']
            else [])
         @ [Tag ''</span>'']
         @ as_html_loop pal label color text'' stop' rest)"

definition as_html :: "palette \<Rightarrow> bool \<Rightarrow> bool \<Rightarrow> Markup \<Rightarrow> piece list" where
  \<open>as_html pal label color self =
     Tag ''<div style="white-space: pre-wrap">'' # as_html_loop pal label color (text' self) 0 (spans self)\<close>

definition BoxMarkup_as_html :: "palette \<Rightarrow> Markup \<Rightarrow> piece list" where
  "BoxMarkup_as_html pal self = as_html pal False True self"

definition BoxLabelMarkup_as_html :: "palette \<Rightarrow> Markup \<Rightarrow> piece list" where
  "BoxLabelMarkup_as_html pal self = as_html pal True False self"

text \<open>\<^verbatim>\<open>Html._repr_html_\<close>: the yielded strings, joined.\<close>

definition repr_html :: "piece list \<Rightarrow> string" where
  "repr_html pieces = concat (map piece_string pieces)"

text \<open>The slices of the document's text among the yielded pieces, in order.\<close>

fun text_slices :: "piece list \<Rightarrow> string list" where
  "text_slices [] = []"
| "text_slices (Text s # ps) = s # text_slices ps"
| "text_slices (_ # ps) = text_slices ps"

subsection \<open>Vocabulary of the statements\<close>

text \<open>
  The triples of the wrapper: \<open>content\<close> is the third component, \<open>contiguous s\<close> says
  that the first triple starts at \<open>s\<close>, that each triple is as long as its content and
  that each starts where the one before stops, and \<open>covered\<close> is the union of the
  ranges.
\<close>

fun content :: "int \<times> int \<times> string \<Rightarrow> string" where
  "content (a, b, c) = c"

fun contiguous :: "int \<Rightarrow> (int \<times> int \<times> string) list \<Rightarrow> bool" where
  "contiguous s [] = True"
| "contiguous s ((a, b, c) # rest) = (a = s \<and> b = a + int (length c) \<and> contiguous b rest)"

definition covered :: "(int \<times> int \<times> string) list \<Rightarrow> int set" where
  "covered triples = (\<Union>(a, b, c) \<in> set triples. {a..<b})"

definition stop_of :: "int \<Rightarrow> (int \<times> int \<times> string) list \<Rightarrow> int" where
  "stop_of s triples = s + int (length (concat (map content triples)))"

text \<open>\<^verbatim>\<open>' '.join(lines)\<close>.\<close>

fun join_space :: "string list \<Rightarrow> string" where
  "join_space [] = []"
| "join_space [l] = l"
| "join_space (l # ls) = l @ '' '' @ join_space ls"

text \<open>
  A line boundary read as a space; a text without the line boundary it ends in, if it
  ends in one; a text that contains CR LF.
\<close>

definition unbreak :: "char \<Rightarrow> char" where
  "unbreak c = (if line_boundary c then CHR '' '' else c)"

definition strip_final_break :: "string \<Rightarrow> string" where
  "strip_final_break s = (if s \<noteq> [] \<and> line_boundary (last s) then butlast s else s)"

fun has_crlf :: "string \<Rightarrow> bool" where
  "has_crlf (c # d # cs) = ((c = CHR 0x0D \<and> d = CHR 0x0A) \<or> has_crlf (d # cs))"
| "has_crlf _ = False"

text \<open>
  A span as the constructor builds it has \<open>start < stop\<close>. A list of spans does not
  overlap when every span starts at or after the stop of the span before it.
\<close>

definition valid_Span :: "Span \<Rightarrow> bool" where
  "valid_Span s \<longleftrightarrow> Span.start s < Span.stop s"

fun non_overlapping :: "Span list \<Rightarrow> bool" where
  "non_overlapping (x # y # rest) = (Span.stop x \<le> Span.start y \<and> non_overlapping (y # rest))"
| "non_overlapping _ = True"

text \<open>
  A document as it is constructed: a positive wrap width, and groups that each have at
  least one row, every row with \<open>start < stop\<close> and a level that is not negative.
\<close>

definition valid_Line :: "Line \<Rightarrow> bool" where
  "valid_Line l \<longleftrightarrow> Line.start l < Line.stop l \<and> 0 \<le> Line.level l"

definition valid_Multiline :: "Multiline \<Rightarrow> bool" where
  "valid_Multiline m \<longleftrightarrow> Multiline.lines m \<noteq> [] \<and> list_all valid_Line (Multiline.lines m)"

definition valid_AsciiMarkup :: "AsciiMarkup \<Rightarrow> bool" where
  "valid_AsciiMarkup self \<longleftrightarrow>
     0 < width (wrapper self) \<and> list_all valid_Multiline (multilines self)"

text \<open>
  A matrix of \<open>h\<close> rows of \<open>w\<close> cells each; a sequence of cell assignments, run in
  order; the characters a sequence assigns to one cell, in order; a sequence whose
  assignments all fall inside the matrix; and the assignments that each of the two
  painting passes makes, in the order it makes them.
\<close>

definition shape :: "nat \<Rightarrow> nat \<Rightarrow> string list \<Rightarrow> bool" where
  "shape h w matrix \<longleftrightarrow> length matrix = h \<and> (\<forall>i<h. length (matrix ! i) = w)"

definition apply_writes :: "(int \<times> int \<times> char) list \<Rightarrow> string list \<Rightarrow> error + string list" where
  "apply_writes ws matrix = for_each (\<lambda>(r, c, ch) m. set_cell m r c ch) ws matrix"

definition written :: "(int \<times> int \<times> char) list \<Rightarrow> nat \<Rightarrow> nat \<Rightarrow> string" where
  "written ws i j = map (\<lambda>(r, c, ch). ch) (filter (\<lambda>(r, c, ch). r = int i \<and> c = int j) ws)"

definition in_range :: "nat \<Rightarrow> nat \<Rightarrow> (int \<times> int \<times> char) list \<Rightarrow> bool" where
  "in_range h w ws \<longleftrightarrow> (\<forall>(r, c, ch) \<in> set ws. 0 \<le> r \<and> r < int h \<and> 0 \<le> c \<and> c < int w)"

definition dash_writes :: "int \<Rightarrow> Multiline list \<Rightarrow> (int \<times> int \<times> char) list" where
  "dash_writes start' slices =
     concat (map (\<lambda>slice'.
       concat (map (\<lambda>line.
         map (\<lambda>x. (Line.level line, x - start', CHR ''-''))
           [Multiline.start slice' .. Multiline.stop slice' - 1])
         (Multiline.lines slice')))
       slices)"

definition label_writes :: "int \<Rightarrow> int \<Rightarrow> Multiline list \<Rightarrow> (int \<times> int \<times> char) list" where
  "label_writes start' width' slices =
     concat (map (\<lambda>slice'.
       concat (map (\<lambda>line.
         if truthy (Line.type line) \<and> Line.start line = Multiline.start slice' then
           map (\<lambda>(x, char). (Line.level line, Multiline.start slice' - start' + int x, char))
             (enumerate 0 (label_text start' width' slice' line))
         else [])
         (Multiline.lines slice')))
       slices)"

text \<open>
  The vocabulary of the statements about one wrapped line. \<open>reslice\<close> is the slice the
  loop builds from a group. \<open>dashed\<close> says that cell \<open>(r, c)\<close> lies, for some row of
  level \<open>r\<close> of some slice, in the columns of that slice. \<open>labelled\<close> says that cell
  \<open>(r, c)\<close> lies in the label of row \<open>l\<close> of slice \<open>s\<close>: the row has a category that
  is not empty, it starts where the slice starts, its level is \<open>r\<close>, and \<open>c\<close> is one of
  the first \<open>min(len(category), size, space)\<close> columns from the slice's first;
  \<open>label_char\<close> is the character of the category that falls on column \<open>c\<close>.
\<close>

definition reslice :: "int \<Rightarrow> int \<Rightarrow> Multiline \<Rightarrow> Multiline" where
  "reslice start' stop' multi =
     \<lparr>Multiline.start = max (Multiline.start multi) start',
      Multiline.stop = min (Multiline.stop multi) stop',
      Multiline.lines = Multiline.lines multi\<rparr>"

definition dashed :: "int \<Rightarrow> Multiline list \<Rightarrow> nat \<Rightarrow> nat \<Rightarrow> bool" where
  "dashed start' slices r c \<longleftrightarrow>
     (\<exists>s \<in> set slices. \<exists>l \<in> set (Multiline.lines s).
        Line.level l = int r \<and> Multiline.start s \<le> start' + int c \<and> start' + int c < Multiline.stop s)"



text \<open>A slice that lies on the wrapped line \<open>[start, stop)\<close>.\<close>

definition within :: "int \<Rightarrow> int \<Rightarrow> Multiline \<Rightarrow> bool" where
  "within start' stop' s \<longleftrightarrow>
     start' \<le> Multiline.start s \<and> Multiline.start s \<le> stop' \<and> Multiline.stop s \<le> stop'"

text \<open>
  Modelled from the spec: the layout of two scenarios of the spec's section 8, as the
  layout function of \<^verbatim>\<open>ipymarkup/multiline.py\<close> (not among the sources) is specified to
  return it. For the text \<^verbatim>\<open>"ab cd"\<close> with the intervals \<open>(0, 2, X)\<close> and \<open>(1, 4, Y)\<close>: one
  group \<open>[0, 4)\<close> with the row \<open>[0, 2)\<close> of category X at level 0 and the row \<open>[1, 4)\<close> of
  category Y at level 1. For one interval \<open>(3, 10)\<close>, here with the category LBL on a
  text of twelve letters: one group \<open>[3, 10)\<close> with one row at level 0.
\<close>

definition overlap_groups :: "Multiline list" where
  "overlap_groups =
     [\<lparr>Multiline.start = 0, stop = 4,
       lines = [\<lparr>Line.start = 0, stop = 2, type = Some ''X'', level = 0\<rparr>,
                \<lparr>Line.start = 1, stop = 4, type = Some ''Y'', level = 1\<rparr>]\<rparr>]"

definition overlap_scenario :: "int \<Rightarrow> AsciiMarkup" where
  "overlap_scenario width' =
     AsciiMarkup_init (\<lambda>spans'. overlap_groups) (PyStr ''ab cd'')
       [\<lparr>Span.start = 0, stop = 2, type = Some ''X''\<rparr>,
        \<lparr>Span.start = 1, stop = 4, type = Some ''Y''\<rparr>] width'"

definition wrap_groups :: "Multiline list" where
  "wrap_groups =
     [\<lparr>Multiline.start = 3, stop = 10,
       lines = [\<lparr>Line.start = 3, stop = 10, type = Some ''LBL'', level = 0\<rparr>]\<rparr>]"

definition wrap_scenario :: AsciiMarkup where
  "wrap_scenario =
     AsciiMarkup_init (\<lambda>spans'. wrap_groups) (PyStr ''abcdefghijkl'')
       [\<lparr>Span.start = 3, stop = 10, type = Some ''LBL''\<rparr>] 5"

section \<open>Properties\<close>

subsection \<open>The order of spans\<close>

lemma Span_lt_irrefl: "\<not> Span_lt a a"
  by (simp add: Span_lt_def)

lemma Span_lt_trans: "Span_lt a b \<Longrightarrow> Span_lt b c \<Longrightarrow> Span_lt a c"
  by (auto simp: Span_lt_def split: if_splits option.splits)

lemma Span_lt_total: "\<not> Span_lt a b \<Longrightarrow> \<not> Span_lt b a \<Longrightarrow> a = b"
  by (cases a, cases b) (auto simp: Span_lt_def split: if_splits option.splits)

lemma Span_lt_asym: "Span_lt a b \<Longrightarrow> \<not> Span_lt b a"
  using Span_lt_irrefl Span_lt_trans by blast

text \<open>
  Claim C4. \<open>a < b\<close> holds exactly when \<open>(start, stop)\<close> of \<open>a\<close> is lexicographically
  smaller, or the two pairs are equal and either \<open>a\<close> has no category while \<open>b\<close> has one,
  or both have one and \<open>a\<close>'s is the smaller string. Two spans with the same start, stop
  and category are not below one another.
\<close>

theorem Span_lt_characterisation:
  "(Span_lt a b \<longleftrightarrow>
      (Span.start a < Span.start b
       \<or> (Span.start a = Span.start b \<and> Span.stop a < Span.stop b))
      \<or> (Span.start a = Span.start b \<and> Span.stop a = Span.stop b \<and>
          (case (Span.type a, Span.type b) of
             (None, Some t) \<Rightarrow> True
           | (Some s, Some t) \<Rightarrow> s < t
           | (_, None) \<Rightarrow> False)))
   \<and> \<not> Span_lt \<lparr>Span.start = i, Span.stop = j, Span.type = c\<rparr>
               \<lparr>Span.start = i, Span.stop = j, Span.type = c\<rparr>"
  by (auto simp: Span_lt_def split: option.splits)

text \<open>
  Claim C5. Construction raises the type error exactly when an offset is not an integer,
  and the range error exactly when both offsets are integers with \<open>start \<ge> stop\<close> (the
  comparison is made on integers only: the type checks come first). Two integers with
  \<open>start < stop\<close> give a span that stores them and the category as they are; nothing is
  clamped.
\<close>

theorem Span_init_result:
  "(Span_init a b c = Inl TypeError \<longleftrightarrow> \<not> (type_of a = T_int \<and> type_of b = T_int))
   \<and> (Span_init a b c = Inl ValueError \<longleftrightarrow> (\<exists>i j. a = PyInt i \<and> b = PyInt j \<and> i \<ge> j))
   \<and> Span_init (PyInt i) (PyInt j) c =
       (if i < j then Inr \<lparr>Span.start = i, Span.stop = j, Span.type = c\<rparr> else Inl ValueError)"
  by (cases a; cases b) (auto simp: Span_init_def assert_type_def)

subsection \<open>Sorting spans\<close>

lemma set_insert_py: "set (insert_py x xs) = insert x (set xs)"
  by (induction xs) auto

lemma mset_insert_py: "mset (insert_py x xs) = add_mset x (mset xs)"
  by (induction xs) auto

lemma mset_sorted_py: "mset (sorted_py xs) = mset xs"
  by (induction xs) (auto simp: mset_insert_py)

lemma in_order_insert_py: "in_order xs \<Longrightarrow> in_order (insert_py x xs)"
  unfolding in_order_def
proof (induction xs)
  case Nil
  then show ?case by simp
next
  case (Cons y ys)
  show ?case
  proof (cases "Span_lt y x")
    case True
    then have "\<not> Span_lt x y" by (rule Span_lt_asym)
    with True Cons show ?thesis by (auto simp: set_insert_py)
  next
    case False
    have "\<not> Span_lt z x" if "z \<in> set ys" for z
    proof
      assume zx: "Span_lt z x"
      from Cons.prems that have "\<not> Span_lt z y" by simp
      then have "y = z \<or> Span_lt y z" using Span_lt_total by blast
      with zx False show False using Span_lt_trans by blast
    qed
    with False Cons.prems show ?thesis by simp
  qed
qed

lemma in_order_sorted_py: "in_order (sorted_py xs)"
  by (induction xs) (simp_all add: in_order_insert_py, simp add: in_order_def)

lemma insert_py_in_order: "in_order (x # xs) \<Longrightarrow> insert_py x xs = x # xs"
  unfolding in_order_def by (cases xs) auto

lemma sorted_py_in_order: "in_order xs \<Longrightarrow> sorted_py xs = xs"
proof (induction xs)
  case Nil
  then show ?case by simp
next
  case (Cons x xs)
  then have "in_order xs" by (simp add: in_order_def)
  with Cons show ?case by (simp add: insert_py_in_order)
qed

lemma spans_Markup_init: "spans (Markup_init gm t xs) = sorted_py xs"
  by (simp add: Markup_init_def Let_def)

lemma text_Markup_init: "text' (Markup_init gm t xs) = str t"
  by (simp add: Markup_init_def Let_def)

text \<open>
  Claim C7. The comparison of spans is a strict weak order: irreflexive, transitive, and
  two spans are incomparable exactly when they are equal. So \<^verbatim>\<open>sorted\<close>, as
  \<^verbatim>\<open>Markup.__init__\<close> calls it, returns a rearrangement of its input that is in order,
  sorting a second time changes nothing, and a list that is already in order is
  returned as it is.
\<close>

theorem Span_lt_strict_weak_order:
  "\<not> Span_lt a a
   \<and> (Span_lt a b \<and> Span_lt b c \<longrightarrow> Span_lt a c)
   \<and> ((\<not> Span_lt a b \<and> \<not> Span_lt b a) \<longleftrightarrow> a = b)
   \<and> in_order (spans (Markup_init gm t xs))
   \<and> mset (spans (Markup_init gm t xs)) = mset xs
   \<and> sorted_py (sorted_py xs) = sorted_py xs
   \<and> (in_order xs \<longrightarrow> sorted_py xs = xs)"
proof -
  have "(\<not> Span_lt a b \<and> \<not> Span_lt b a) \<longleftrightarrow> a = b"
    using Span_lt_total Span_lt_irrefl by blast
  moreover have "Span_lt a b \<and> Span_lt b c \<longrightarrow> Span_lt a c"
    using Span_lt_trans by blast
  moreover have "sorted_py (sorted_py xs) = sorted_py xs"
    by (rule sorted_py_in_order) (rule in_order_sorted_py)
  ultimately show ?thesis
    by (simp add: Span_lt_irrefl spans_Markup_init in_order_sorted_py mset_sorted_py
        sorted_py_in_order)
qed

theorem Span_lt_strict_weak_order_witness:
  "Span_lt \<lparr>Span.start = 0, stop = 2, type = None\<rparr> \<lparr>Span.start = 0, stop = 2, type = Some ''A''\<rparr>
   \<and> Span_lt \<lparr>Span.start = 0, stop = 2, type = Some ''A''\<rparr> \<lparr>Span.start = 1, stop = 2, type = None\<rparr>
   \<and> Span_lt \<lparr>Span.start = 0, stop = 2, type = None\<rparr> \<lparr>Span.start = 1, stop = 2, type = None\<rparr>
   \<and> in_order [\<lparr>Span.start = 0, stop = 2, type = None\<rparr>,
               \<lparr>Span.start = 0, stop = 2, type = Some ''A''\<rparr>,
               \<lparr>Span.start = 1, stop = 2, type = None\<rparr>]
   \<and> sorted_py [\<lparr>Span.start = 0, stop = 2, type = None\<rparr>,
                \<lparr>Span.start = 0, stop = 2, type = Some ''A''\<rparr>,
                \<lparr>Span.start = 1, stop = 2, type = None\<rparr>]
       = [\<lparr>Span.start = 0, stop = 2, type = None\<rparr>,
          \<lparr>Span.start = 0, stop = 2, type = Some ''A''\<rparr>,
          \<lparr>Span.start = 1, stop = 2, type = None\<rparr>]"
  using Span_lt_strict_weak_order
    [of "\<lparr>Span.start = 0, stop = 2, type = None\<rparr>"
        "\<lparr>Span.start = 0, stop = 2, type = Some ''A''\<rparr>"
        "\<lparr>Span.start = 1, stop = 2, type = None\<rparr>"
        "\<lambda>_. []" PyNone
        "[\<lparr>Span.start = 0, stop = 2, type = None\<rparr>,
          \<lparr>Span.start = 0, stop = 2, type = Some ''A''\<rparr>,
          \<lparr>Span.start = 1, stop = 2, type = None\<rparr>]"]
  by (simp add: Span_lt_def in_order_def)

subsection \<open>The wrapper\<close>

lemma lossless_chop: "lossless chop"
proof -
  have "concat (chop w line) = line" for w line
    by (induction w line rule: chop.induct) (subst chop.simps, auto)
  then show ?thesis by (simp add: lossless_def)
qed

lemma call_folds_spec:
  "call_folds s folds = (out, s') \<Longrightarrow>
     contiguous s out \<and> map content out = folds \<and> s' = s + int (length (concat folds))"
proof (induction folds arbitrary: s out s')
  case Nil
  then show ?case by simp
next
  case (Cons f folds)
  obtain out1 s1 where r: "call_folds (s + int (length f)) folds = (out1, s1)"
    by (cases "call_folds (s + int (length f)) folds")
  from Cons.IH[OF r] Cons.prems r show ?case by (auto simp: Let_def)
qed

lemma contiguous_append:
  "contiguous s (xs @ ys) \<longleftrightarrow> contiguous s xs \<and> contiguous (stop_of s xs) ys"
  by (induction xs arbitrary: s) (auto simp: stop_of_def add.assoc)

lemma covered_contiguous:
  "contiguous s triples \<Longrightarrow> covered triples = {s..<stop_of s triples}"
proof (induction triples arbitrary: s)
  case Nil
  then show ?case by (simp add: covered_def stop_of_def)
next
  case (Cons t triples)
  obtain a b c where t: "t = (a, b, c)" by (cases t)
  from Cons.prems t have a: "a = s" and b: "b = s + int (length c)" and rest: "contiguous b triples"
    by auto
  have "covered (t # triples) = {a..<b} \<union> covered triples"
    by (simp add: covered_def t)
  also have "\<dots> = {a..<b} \<union> {b..<stop_of b triples}"
    using Cons.IH[OF rest] by simp
  also have "\<dots> = {s..<stop_of s (t # triples)}"
    using a b by (auto simp: stop_of_def t)
  finally show ?case .
qed

lemma lengths_contiguous:
  "contiguous s triples \<Longrightarrow> \<forall>(a, b, c) \<in> set triples. b - a = int (length c)"
proof (induction triples arbitrary: s)
  case Nil
  then show ?case by simp
next
  case (Cons t triples)
  obtain a b c where t: "t = (a, b, c)" by (cases t)
  from Cons.prems t have "contiguous b triples" "b - a = int (length c)" by auto
  with Cons.IH[of b] t show ?case by simp
qed

lemma call_lines_contiguous:
  assumes "0 < width self"
  shows "\<exists>out. call_lines tw self n s xs = Inr out \<and> contiguous s out"
proof (induction xs arbitrary: s)
  case Nil
  then show ?case by simp
next
  case (Cons x xs)
  obtain i l where x: "x = (i, l)" by (cases x)
  define l' where "l' = (if int i < int n - 1 then l @ '' '' else l)"
  have w: "wrap tw self l' = Inr (tw (nat (width self)) l')"
    using assms by (simp add: wrap_def)
  obtain out1 s1 where f: "call_folds s (tw (nat (width self)) l') = (out1, s1)"
    by (cases "call_folds s (tw (nat (width self)) l')")
  from call_folds_spec[OF f]
  have o1: "contiguous s out1" "s1 = stop_of s out1"
    by (auto simp: stop_of_def)
  from Cons.IH[of s1] obtain out2 where
    o2: "call_lines tw self n s1 xs = Inr out2" "contiguous s1 out2"
    by blast
  have "call_lines tw self n s (x # xs) = Inr (out1 @ out2)"
    using w f o2(1) by (simp add: x l'_def Let_def)
  with o1 o2 show ?case by (simp add: contiguous_append)
qed

lemma Wrapper_call_contiguous:
  assumes "0 < width self"
  shows "\<exists>out. Wrapper_call tw self t = Inr out \<and> contiguous 0 out"
  using call_lines_contiguous[OF assms] by (simp add: Wrapper_call_def Let_def)

lemma call_lines_spec:
  assumes "lossless tw" "0 < width self"
  shows "i + length ls = n \<Longrightarrow>
     \<exists>out. call_lines tw self n s (enumerate i ls) = Inr out \<and> contiguous s out \<and>
       concat (map content out) = join_space ls"
proof (induction ls arbitrary: i s)
  case Nil
  then show ?case by simp
next
  case (Cons l ls)
  define l' where "l' = (if int i < int n - 1 then l @ '' '' else l)"
  have w: "wrap tw self l' = Inr (tw (nat (width self)) l')"
    using assms(2) by (simp add: wrap_def)
  have cc: "concat (tw (nat (width self)) l') = l'"
    using assms by (simp add: lossless_def)
  obtain out1 s1 where f: "call_folds s (tw (nat (width self)) l') = (out1, s1)"
    by (cases "call_folds s (tw (nat (width self)) l')")
  from call_folds_spec[OF f] cc
  have o1: "contiguous s out1" "concat (map content out1) = l'" "s1 = s + int (length l')"
    by auto
  from Cons.prems have "Suc i + length ls = n" by simp
  from Cons.IH[OF this, of s1] obtain out2 where
    o2: "call_lines tw self n s1 (enumerate (Suc i) ls) = Inr out2" "contiguous s1 out2"
      "concat (map content out2) = join_space ls"
    by blast
  have st: "stop_of s out1 = s1" using o1 by (simp add: stop_of_def)
  have res: "call_lines tw self n s (enumerate i (l # ls)) = Inr (out1 @ out2)"
    using w f o2(1) by (simp add: l'_def Let_def)
  have j: "l' @ join_space ls = join_space (l # ls)"
  proof (cases ls)
    case Nil
    with Cons.prems show ?thesis by (simp add: l'_def)
  next
    case (Cons a as)
    with Cons.prems show ?thesis by (auto simp add: l'_def)
  qed
  show ?case
    using res o1 o2 st j by (simp add: contiguous_append)
qed

lemma Wrapper_call_join:
  assumes "lossless tw" "0 < width self"
  shows "\<exists>out. Wrapper_call tw self t = Inr out \<and> contiguous 0 out \<and>
       concat (map content out) = join_space (splitlines t)"
  using call_lines_spec[OF assms, of 0 "splitlines t" "length (splitlines t)" 0]
  by (simp add: Wrapper_call_def Let_def)

lemma splitlines_from_nonempty: "rest \<noteq> [] \<Longrightarrow> splitlines_from cur rest \<noteq> []"
  by (induction cur rest rule: splitlines_from.induct) auto

lemma join_space_Cons: "ls \<noteq> [] \<Longrightarrow> join_space (l # ls) = l @ '' '' @ join_space ls"
  by (cases ls) auto

lemma strip_final_break_Cons2:
  "strip_final_break (c # d # cs) = c # strip_final_break (d # cs)"
  by (simp add: strip_final_break_def)

lemma CR_LF_boundary: "line_boundary (CHR 0x0D)" "line_boundary (CHR 0x0A)"
  by (simp_all add: line_boundary_def)

lemma join_splitlines_from:
  "\<not> has_crlf rest \<Longrightarrow>
     join_space (splitlines_from cur rest) = cur @ map unbreak (strip_final_break rest)"
proof (induction cur rest rule: splitlines_from.induct)
  case (1 cur)
  then show ?case by (simp add: strip_final_break_def)
next
  case (2 cur c)
  then show ?case by (simp add: strip_final_break_def unbreak_def)
next
  case (3 cur c d cs)
  from "3.prems" have nc: "\<not> (c = CHR 0x0D \<and> d = CHR 0x0A)" and nr: "\<not> has_crlf (d # cs)"
    by auto
  show ?case
  proof (cases "line_boundary c")
    case True
    have ne: "splitlines_from [] (d # cs) \<noteq> []" by (rule splitlines_from_nonempty) simp
    have "splitlines_from cur (c # d # cs) = cur # splitlines_from [] (d # cs)"
      using nc True by auto
    then have "join_space (splitlines_from cur (c # d # cs))
        = cur @ '' '' @ join_space (splitlines_from [] (d # cs))"
      using join_space_Cons[OF ne, of cur] by simp
    also have "\<dots> = cur @ '' '' @ map unbreak (strip_final_break (d # cs))"
      using "3.IH"(2)[OF nc True nr] by simp
    also have "\<dots> = cur @ map unbreak (strip_final_break (c # d # cs))"
      using True by (simp add: strip_final_break_Cons2 unbreak_def)
    finally show ?thesis .
  next
    case False
    then have "c \<noteq> CHR 0x0D" using CR_LF_boundary(1) by auto
    with "3.IH"(3)[OF nc False nr] False show ?thesis
      by (simp add: strip_final_break_Cons2 unbreak_def)
  qed
qed

text \<open>
  Claim C3, as amended. For a wrapping algorithm that loses nothing, a positive width and
  a text with no CR LF in it, the wrapper returns a finite list of triples, each as long
  as its content, the first starting at 0 and each starting where the one before stops.
  Their contents, joined, are the text without the line boundary it ends in (if it ends
  in one) and with every other line boundary read as one space; the ranges cover
  \<open>[0, n)\<close> for the length \<open>n\<close> of that text.
\<close>

theorem Wrapper_call_covers:
  assumes "lossless tw" "0 < width self" "\<not> has_crlf t"
  shows "\<exists>out. Wrapper_call tw self t = Inr out
     \<and> (\<forall>(a, b, c) \<in> set out. b - a = int (length c))
     \<and> contiguous 0 out
     \<and> covered out = {0..<int (length (strip_final_break t))}
     \<and> concat (map content out) = map unbreak (strip_final_break t)"
proof -
  from Wrapper_call_join[OF assms(1,2), of t] obtain out where
    o: "Wrapper_call tw self t = Inr out" "contiguous 0 out"
       "concat (map content out) = join_space (splitlines t)"
    by blast
  have j: "join_space (splitlines t) = map unbreak (strip_final_break t)"
    using join_splitlines_from[OF assms(3), of "[]"] by (simp add: splitlines_def)
  have "covered out = {0..<stop_of 0 out}" using o(2) by (rule covered_contiguous)
  then have "covered out = {0..<int (length (strip_final_break t))}"
    using o(3) j by (simp add: stop_of_def)
  with o j lengths_contiguous[OF o(2)] show ?thesis by simp
qed




theorem Wrapper_call_covers_witness:
  "\<exists>out. Wrapper_call chop \<lparr>width = 5\<rparr> [CHR ''a'', CHR ''b'', CHR 0x0A, CHR ''c'', CHR ''d'', CHR ''e'', CHR ''f'', CHR ''g'', CHR ''h'', CHR 0x0A] = Inr out
     \<and> contiguous 0 out
     \<and> covered out = {0..<9}
     \<and> concat (map content out) = ''ab cdefgh''"
  using Wrapper_call_covers [OF lossless_chop, of "\<lparr>width = 5\<rparr>"
      "[CHR ''a'', CHR ''b'', CHR 0x0A, CHR ''c'', CHR ''d'', CHR ''e'', CHR ''f'', CHR ''g'', CHR ''h'', CHR 0x0A]"]
  by (auto simp: strip_final_break_def unbreak_def line_boundary_def)

text \<open>
  The claim as it is written fails on a text that ends in a line break: of the two
  characters of \<^verbatim>\<open>"a\n"\<close> the wrapper covers the first only.
\<close>

theorem Wrapper_call_final_break_counterexample:
  "Wrapper_call chop \<lparr>width = 70\<rparr> [CHR ''a'', CHR 0x0A] = Inr [(0, 1, ''a'')]
   \<and> covered [(0, 1, ''a'')] \<noteq> {0..<int (length [CHR ''a'', CHR 0x0A])}"
proof -
  have "Wrapper_call chop \<lparr>width = 70\<rparr> [CHR ''a'', CHR 0x0A] = Inr [(0, 1, ''a'')]"
    by code_simp
  moreover have "(1::int) \<in> {0..<int (length [CHR ''a'', CHR 0x0A])}" by simp
  moreover have "(1::int) \<notin> covered [(0, 1, ''a'')]" by (simp add: covered_def)
  ultimately show ?thesis by blast
qed

text \<open>
  A CR LF pair is one line boundary and becomes one space: every fold after it lies one
  offset lower than its characters lie in the text. In \<^verbatim>\<open>"a\r\nbc"\<close> the characters of
  \<^verbatim>\<open>"bc"\<close> have the offsets 3 and 4, and their fold has the range \<open>[2, 4)\<close>.
\<close>

theorem Wrapper_call_crlf_shift:
  "Wrapper_call chop \<lparr>width = 70\<rparr> [CHR ''a'', CHR 0x0D, CHR 0x0A, CHR ''b'', CHR ''c'']
     = Inr [(0, 2, ''a ''), (2, 4, ''bc'')]
   \<and> slice [CHR ''a'', CHR 0x0D, CHR 0x0A, CHR ''b'', CHR ''c''] 3 5 = ''bc''"
proof -
  have "Wrapper_call chop \<lparr>width = 70\<rparr> [CHR ''a'', CHR 0x0D, CHR 0x0A, CHR ''b'', CHR ''c'']
     = Inr [(0, 2, ''a ''), (2, 4, ''bc'')]"
    by code_simp
  then show ?thesis by (simp add: slice_def clamp_index_def)
qed

subsection \<open>The box renderer\<close>

lemma text_slices_append: "text_slices (ps @ qs) = text_slices ps @ text_slices qs"
  by (induction ps rule: text_slices.induct) auto

lemma slice_slice_from:
  assumes "0 \<le> a" "a \<le> b"
  shows "slice t a b @ slice_from t b = slice_from t a"
proof -
  define lo where "lo = clamp_index (length t) a"
  define hi where "hi = clamp_index (length t) b"
  have le: "lo \<le> hi" using assms by (simp add: lo_def hi_def clamp_index_def)
  have "take (hi - lo) (drop lo t) @ drop (hi - lo) (drop lo t) = drop lo t"
    by (rule append_take_drop_id)
  moreover have "drop (hi - lo) (drop lo t) = drop hi t" using le by simp
  ultimately have "take (hi - lo) (drop lo t) @ drop hi t = drop lo t" by simp
  then show ?thesis
    by (simp add: slice_def slice_from_def Let_def lo_def hi_def)
qed

lemma as_html_loop_text:
  "0 \<le> previous \<Longrightarrow> list_all valid_Span xs \<Longrightarrow> non_overlapping xs \<Longrightarrow>
   (xs \<noteq> [] \<Longrightarrow> previous \<le> Span.start (hd xs)) \<Longrightarrow>
   concat (text_slices (as_html_loop pal label color t previous xs)) = slice_from t previous"
proof (induction xs arbitrary: previous)
  case Nil
  then show ?case by simp
next
  case (Cons x xs)
  from Cons.prems have p: "previous \<le> Span.start x" and v: "Span.start x < Span.stop x"
    by (simp_all add: valid_Span_def)
  have next_ok: "xs \<noteq> [] \<Longrightarrow> Span.stop x \<le> Span.start (hd xs)"
    using Cons.prems(3) by (cases xs) auto
  have no: "non_overlapping xs" using Cons.prems(3) by (cases xs) auto
  have "concat (text_slices (as_html_loop pal label color t (Span.stop x) xs))
      = slice_from t (Span.stop x)"
    using Cons.IH[of "Span.stop x"] Cons.prems(1,2) p v next_ok no by simp
  moreover have "slice t previous (Span.start x) @ slice t (Span.start x) (Span.stop x)
      @ slice_from t (Span.stop x) = slice_from t previous"
    using slice_slice_from[of "Span.start x" "Span.stop x" t]
      slice_slice_from[of previous "Span.start x" t] Cons.prems(1) p v by simp
  ultimately show ?case by (simp add: Let_def text_slices_append)
qed

lemma slice_from_0: "slice_from t 0 = t"
  by (simp add: slice_from_def clamp_index_def)

text \<open>
  Claim C9, as amended. When no span of the document starts before offset 0 and the
  sorted spans, each with \<open>start < stop\<close>, do not overlap, the text slices that
  \<^verbatim>\<open>as_html\<close> yields for a box markup, joined, are the text; tags and labels are left
  aside. For the two overlapping spans \<open>(0, 2)\<close> and \<open>(1, 3)\<close> on \<^verbatim>\<open>"abc"\<close> the slices
  give \<^verbatim>\<open>"abbc"\<close>: the loop walks the sorted spans and never looks at the layout groups,
  so the character in the overlap is yielded twice.
\<close>

theorem as_html_text_slices:
  "(list_all valid_Span (spans self) \<and> non_overlapping (spans self)
      \<and> list_all (\<lambda>s. 0 \<le> Span.start s) (spans self)
    \<longrightarrow> concat (text_slices (as_html pal label color self)) = text' self)
   \<and> concat (text_slices (BoxMarkup_as_html pal (Markup_init gm (PyStr ''abc'')
        [\<lparr>Span.start = 0, stop = 2, type = None\<rparr>, \<lparr>Span.start = 1, stop = 3, type = None\<rparr>])))
      = ''abbc''"
proof -
  have "concat (text_slices (as_html pal label color self)) = text' self"
    if a: "list_all valid_Span (spans self)" "non_overlapping (spans self)"
      "list_all (\<lambda>s. 0 \<le> Span.start s) (spans self)"
  proof -
    have "spans self \<noteq> [] \<Longrightarrow> 0 \<le> Span.start (hd (spans self))"
      using a(3) by (cases "spans self") auto
    from as_html_loop_text[OF _ a(1,2) this, of pal label color "text' self"]
    show ?thesis by (simp add: as_html_def slice_from_0)
  qed
  moreover have "concat (text_slices (BoxMarkup_as_html pal (Markup_init gm (PyStr ''abc'')
        [\<lparr>Span.start = 0, stop = 2, type = None\<rparr>, \<lparr>Span.start = 1, stop = 3, type = None\<rparr>])))
      = ''abbc''"
    by (simp add: BoxMarkup_as_html_def as_html_def Markup_init_def Let_def Span_lt_def
        slice_def slice_from_def clamp_index_def)
  ultimately show ?thesis by blast
qed

theorem as_html_text_slices_witness:
  "\<forall>pal gm. concat (text_slices (BoxLabelMarkup_as_html pal (Markup_init gm (PyStr ''hello world'')
      [\<lparr>Span.start = 6, stop = 11, type = Some ''B''\<rparr>, \<lparr>Span.start = 0, stop = 5, type = Some ''A''\<rparr>])))
   = ''hello world''"
proof (intro allI)
  fix pal :: palette and gm :: get_multilines
  show "concat (text_slices (BoxLabelMarkup_as_html pal (Markup_init gm (PyStr ''hello world'')
      [\<lparr>Span.start = 6, stop = 11, type = Some ''B''\<rparr>, \<lparr>Span.start = 0, stop = 5, type = Some ''A''\<rparr>])))
   = ''hello world''"
    using as_html_text_slices [of "Markup_init gm (PyStr ''hello world'')
        [\<lparr>Span.start = 6, stop = 11, type = Some ''B''\<rparr>, \<lparr>Span.start = 0, stop = 5, type = Some ''A''\<rparr>]"
        pal True False]
    by (simp add: BoxLabelMarkup_as_html_def Markup_init_def Let_def Span_lt_def valid_Span_def)
qed

text \<open>
  The claim as it is written fails for a span that starts before offset 0: the single
  span \<open>(-1, 1)\<close> overlaps no other span, and on \<^verbatim>\<open>"abc"\<close> the slices are \<^verbatim>\<open>"ab"\<close>, the
  empty string and \<^verbatim>\<open>"bc"\<close>.
\<close>

theorem as_html_negative_start_counterexample:
  "\<forall>pal gm.
     valid_Span \<lparr>Span.start = - 1, stop = 1, type = None\<rparr>
     \<and> non_overlapping (spans (Markup_init gm (PyStr ''abc'') [\<lparr>Span.start = - 1, stop = 1, type = None\<rparr>]))
     \<and> text_slices (BoxMarkup_as_html pal (Markup_init gm (PyStr ''abc'')
          [\<lparr>Span.start = - 1, stop = 1, type = None\<rparr>])) = [''ab'', '''', ''bc'']
     \<and> concat [''ab'', '''', ''bc''] \<noteq> ''abc''"
  by (simp add: BoxMarkup_as_html_def as_html_def Markup_init_def Let_def valid_Span_def
      slice_def slice_from_def clamp_index_def)

subsection \<open>The text of a document\<close>

lemma AsciiMarkup_init_text: "text' (AsciiMarkup_init gm v xs w) = str v"
  by (simp add: AsciiMarkup_init_def Markup_init_def Let_def)


subsection \<open>Assigning cells of the matrix\<close>

lemma set_cell_in_range:
  assumes "0 \<le> r" "nat r < length M" "0 \<le> c" "nat c < length (M ! nat r)"
  shows "set_cell M r c ch = Inr (M[nat r := (M ! nat r)[nat c := ch]])"
proof -
  have "r < int (length M)" "c < int (length (M ! nat r))" using assms by linarith+
  with assms show ?thesis
    by (simp add: set_cell_def getitem_def setitem_def Let_def)
qed

lemma shape_update:
  "shape h w M \<Longrightarrow> i < h \<Longrightarrow> shape h w (M[i := (M ! i)[j := ch]])"
  by (simp add: shape_def nth_list_update)

lemma cell_update:
  "shape h w M \<Longrightarrow> i < h \<Longrightarrow> j < w \<Longrightarrow> i' < h \<Longrightarrow> j' < w \<Longrightarrow>
   M[i := (M ! i)[j := ch]] ! i' ! j' = (if i' = i \<and> j' = j then ch else M ! i' ! j')"
  by (auto simp: shape_def nth_list_update)

lemma for_each_append:
  "for_each body (xs @ ys) s =
     (case for_each body xs s of Inl e \<Rightarrow> Inl e | Inr s' \<Rightarrow> for_each body ys s')"
  by (induction xs arbitrary: s) (auto split: sum.splits)

lemma apply_writes_Nil: "apply_writes [] M = Inr M"
  by (simp add: apply_writes_def)

lemma apply_writes_Cons:
  "apply_writes ((r, c, ch) # ws) M =
     (case set_cell M r c ch of Inl e \<Rightarrow> Inl e | Inr M' \<Rightarrow> apply_writes ws M')"
  unfolding apply_writes_def by simp

lemma apply_writes_append:
  "apply_writes (ws @ vs) M =
     (case apply_writes ws M of Inl e \<Rightarrow> Inl e | Inr M' \<Rightarrow> apply_writes vs M')"
  unfolding apply_writes_def by (rule for_each_append)

lemma written_Nil: "written [] i j = []"
  by (simp add: written_def)

lemma written_Cons:
  "written ((r, c, ch) # ws) i j =
     (if r = int i \<and> c = int j then ch # written ws i j else written ws i j)"
  by (simp add: written_def)

lemma written_append: "written (ws @ vs) i j = written ws i j @ written vs i j"
  by (simp add: written_def)

lemma set_written: "ch \<in> set (written ws i j) \<longleftrightarrow> (int i, int j, ch) \<in> set ws"
  by (force simp: written_def)

lemma in_range_Cons:
  "in_range h w ((r, c, ch) # ws) \<longleftrightarrow>
     0 \<le> r \<and> r < int h \<and> 0 \<le> c \<and> c < int w \<and> in_range h w ws"
  by (auto simp: in_range_def)

lemma apply_writes_cells:
  "shape h w M \<Longrightarrow> in_range h w ws \<Longrightarrow>
   \<exists>M'. apply_writes ws M = Inr M' \<and> shape h w M' \<and>
     (\<forall>i<h. \<forall>j<w. M' ! i ! j = last (M ! i ! j # written ws i j))"
proof (induction ws arbitrary: M)
  case Nil
  then show ?case by (simp add: apply_writes_Nil written_Nil)
next
  case (Cons x ws)
  obtain r c ch where x: "x = (r, c, ch)" by (cases x)
  from Cons.prems(2) x have rc: "0 \<le> r" "r < int h" "0 \<le> c" "c < int w" and rest: "in_range h w ws"
    by (simp_all add: in_range_Cons)
  define M1 where "M1 = M[nat r := (M ! nat r)[nat c := ch]]"
  have lt: "nat r < h" "nat c < w" using rc by auto
  have len: "nat r < length M" "nat c < length (M ! nat r)"
    using Cons.prems(1) lt by (simp_all add: shape_def)
  have step: "set_cell M r c ch = Inr M1"
    unfolding M1_def using rc len by (intro set_cell_in_range) simp_all
  have sh1: "shape h w M1"
    unfolding M1_def using Cons.prems(1) lt(1) by (rule shape_update)
  from Cons.IH[OF sh1 rest] obtain M' where
    m': "apply_writes ws M1 = Inr M'" "shape h w M'"
      "\<forall>i<h. \<forall>j<w. M' ! i ! j = last (M1 ! i ! j # written ws i j)"
    by blast
  have cells: "M' ! i ! j = last (M ! i ! j # written (x # ws) i j)" if ij: "i < h" "j < w" for i j
  proof -
    have "M1 ! i ! j = (if i = nat r \<and> j = nat c then ch else M ! i ! j)"
      unfolding M1_def using Cons.prems(1) lt ij by (rule cell_update)
    moreover have "(r = int i \<and> c = int j) \<longleftrightarrow> (i = nat r \<and> j = nat c)"
      using rc by auto
    ultimately show ?thesis
      using m'(3) ij by (simp add: x written_Cons)
  qed
  show ?case
    using step m'(1,2) cells by (simp add: x apply_writes_Cons)
qed

lemma for_each_apply_writes:
  "for_each (\<lambda>x. apply_writes (f x)) xs = apply_writes (concat (map f xs))"
proof
  fix M
  show "for_each (\<lambda>x. apply_writes (f x)) xs M = apply_writes (concat (map f xs)) M"
    by (induction xs arbitrary: M)
      (auto simp: apply_writes_Nil apply_writes_append split: sum.splits)
qed

lemma for_each_set_cell:
  "for_each (\<lambda>x m. set_cell m (g x) (k x) (q x)) xs = apply_writes (map (\<lambda>x. (g x, k x, q x)) xs)"
proof
  fix M
  show "for_each (\<lambda>x m. set_cell m (g x) (k x) (q x)) xs M
      = apply_writes (map (\<lambda>x. (g x, k x, q x)) xs) M"
    by (induction xs arbitrary: M)
      (auto simp: apply_writes_Nil apply_writes_Cons split: sum.splits)
qed

lemma paint_dashes_writes:
  "paint_dashes start' slices = apply_writes (dash_writes start' slices)"
proof
  fix M
  show "paint_dashes start' slices M = apply_writes (dash_writes start' slices) M"
    by (simp add: paint_dashes_def dash_writes_def for_each_set_cell for_each_apply_writes)
qed

lemma for_each_enumerate_set_cell:
  "for_each (\<lambda>(x, char) m. set_cell m r (k + int x) char) xs
     = apply_writes (map (\<lambda>(x, char). (r, k + int x, char)) xs)"
proof
  fix M
  show "for_each (\<lambda>(x, char) m. set_cell m r (k + int x) char) xs M
      = apply_writes (map (\<lambda>(x, char). (r, k + int x, char)) xs) M"
    by (induction xs arbitrary: M)
      (auto simp: apply_writes_Nil apply_writes_Cons split: sum.splits)
qed

lemma if_apply_writes:
  "(\<lambda>m. if P then apply_writes ws m else Inr m) = apply_writes (if P then ws else [])"
  by (auto simp: apply_writes_Nil)

lemma paint_labels_writes:
  "paint_labels start' width' slices = apply_writes (label_writes start' width' slices)"
proof
  fix M
  show "paint_labels start' width' slices M = apply_writes (label_writes start' width' slices) M"
    apply (simp only: paint_labels_def label_writes_def)
    apply (subst for_each_enumerate_set_cell)
    apply (subst if_apply_writes)
    apply (simp add: for_each_apply_writes)
    done
qed

subsection \<open>The slices of one wrapped line\<close>

lemma select_step:
  "select ms start' stop' index acc =
     (if index < length ms \<and> Multiline.start (ms ! index) < stop' then
        (if Multiline.stop (ms ! index) \<le> stop'
         then select ms start' stop' (Suc index) (acc @ [reslice start' stop' (ms ! index)])
         else (acc @ [reslice start' stop' (ms ! index)], index))
      else (acc, index))"
  by (subst select.simps) (simp add: Let_def reslice_def not_le)

lemma select_reslice:
  "select ms start' stop' index acc = (slices, index') \<Longrightarrow>
   \<exists>k. slices = acc @ map (reslice start' stop') (take k (drop index ms)) \<and>
       (\<forall>m \<in> set (take k (drop index ms)). Multiline.start m < stop')"
proof (induction "length ms - index" arbitrary: index acc)
  case 0
  then have "slices = acc" by (subst (asm) select_step) simp
  then show ?case by (intro exI[of _ 0]) simp
next
  case (Suc n)
  then have lt: "index < length ms" by simp
  define multi where "multi = ms ! index"
  have dr: "drop index ms = multi # drop (Suc index) ms"
    using lt by (simp add: multi_def Cons_nth_drop_Suc)
  show ?case
  proof (cases "Multiline.start multi < stop'")
    case False
    with Suc.prems have "slices = acc"
      by (subst (asm) select_step) (simp add: multi_def)
    then show ?thesis by (intro exI[of _ 0]) simp
  next
    case True
    show ?thesis
    proof (cases "Multiline.stop multi \<le> stop'")
      case False
      with True lt Suc.prems have "slices = acc @ [reslice start' stop' multi]"
        by (subst (asm) select_step) (auto simp: multi_def)
      with True show ?thesis by (intro exI[of _ 1]) (simp add: dr)
    next
      case le: True
      have rec: "select ms start' stop' (Suc index) (acc @ [reslice start' stop' multi])
          = (slices, index')"
        using True le lt Suc.prems by (subst (asm) select_step) (simp add: multi_def)
      have "n = length ms - Suc index" using Suc.hyps(2) by simp
      from Suc.hyps(1)[OF this rec] obtain k where
        k: "slices = (acc @ [reslice start' stop' multi])
              @ map (reslice start' stop') (take k (drop (Suc index) ms))"
           "\<forall>m \<in> set (take k (drop (Suc index) ms)). Multiline.start m < stop'"
        by blast
      with True show ?thesis by (intro exI[of _ "Suc k"]) (simp add: dr)
    qed
  qed
qed

lemma within_reslice:
  "start' \<le> stop' \<Longrightarrow> Multiline.start m < stop' \<Longrightarrow> within start' stop' (reslice start' stop' m)"
  by (simp add: within_def reslice_def)

lemma lines_reslice: "Multiline.lines (reslice start' stop' m) = Multiline.lines m"
  by (simp add: reslice_def)

lemma select_slices:
  assumes "select ms start' stop' index [] = (slices, index')" "start' \<le> stop'"
    "list_all valid_Multiline ms"
  shows "list_all (within start' stop') slices" "list_all valid_Multiline slices"
proof -
  from select_reslice[OF assms(1)] obtain k where
    k: "slices = map (reslice start' stop') (take k (drop index ms))"
       "\<forall>m \<in> set (take k (drop index ms)). Multiline.start m < stop'"
    by auto
  have sub: "set (take k (drop index ms)) \<subseteq> set ms"
    by (meson set_take_subset set_drop_subset subset_trans)
  show "list_all (within start' stop') slices"
    using k assms(2) by (auto simp: list_all_iff within_reslice)
  show "list_all valid_Multiline slices"
    using k(1) sub assms(3) by (auto simp: list_all_iff valid_Multiline_def lines_reslice)
qed

subsection \<open>The two painting passes\<close>

lemma max_py_Max: "xs \<noteq> [] \<Longrightarrow> max_py xs = Inr (Max (set xs))"
  by (cases xs) (simp_all add: max_py_def Max.set_eq_fold[symmetric])

lemma levels_nonempty:
  "slices \<noteq> [] \<Longrightarrow> list_all valid_Multiline slices \<Longrightarrow> levels slices \<noteq> []"
  by (cases slices) (auto simp: levels_def valid_Multiline_def)

lemma set_levels:
  "set (levels slices) = {Line.level l | s l. s \<in> set slices \<and> l \<in> set (Multiline.lines s)}"
  by (auto simp: levels_def)

lemma set_dash_writes:
  "(r, c, ch) \<in> set (dash_writes start' slices) \<longleftrightarrow>
     ch = CHR ''-'' \<and>
     (\<exists>s \<in> set slices. \<exists>l \<in> set (Multiline.lines s).
        r = Line.level l \<and> Multiline.start s \<le> start' + c \<and> start' + c < Multiline.stop s)"
  (is "?L \<longleftrightarrow> ?R")
proof
  assume ?L
  then obtain s l x where "s \<in> set slices" "l \<in> set (Multiline.lines s)"
      "Multiline.start s \<le> x" "x \<le> Multiline.stop s - 1"
      "r = Line.level l" "c = x - start'" "ch = CHR ''-''"
    by (auto simp: dash_writes_def)
  then show ?R by auto
next
  assume ?R
  then obtain s l where sl: "s \<in> set slices" "l \<in> set (Multiline.lines s)" "ch = CHR ''-''"
      "r = Line.level l" "Multiline.start s \<le> start' + c" "start' + c < Multiline.stop s"
    by auto
  have "(r, c, ch) \<in> (\<lambda>x. (Line.level l, x - start', CHR ''-''))
      ` {Multiline.start s .. Multiline.stop s - 1}"
    using sl(3-6) by (intro image_eqI[of _ _ "start' + c"]) simp_all
  with sl(1,2) show ?L by (auto simp: dash_writes_def)
qed

lemma blank_shape: "0 \<le> height \<Longrightarrow> shape (nat height) w (blank height (int w))"
  by (simp add: shape_def blank_def)

lemma blank_cell: "i < nat height \<Longrightarrow> j < w \<Longrightarrow> blank height (int w) ! i ! j = CHR '' ''"
  by (simp add: blank_def)

lemma level_bound:
  assumes "list_all valid_Multiline slices" "s \<in> set slices" "l \<in> set (Multiline.lines s)"
  shows "0 \<le> Line.level l" "Line.level l < Max (set (levels slices)) + 1"
proof -
  show "0 \<le> Line.level l"
    using assms by (auto simp: list_all_iff valid_Multiline_def valid_Line_def)
  have "Line.level l \<in> set (levels slices)" using assms(2,3) by (auto simp: set_levels)
  then have "Line.level l \<le> Max (set (levels slices))" by simp
  then show "Line.level l < Max (set (levels slices)) + 1" by simp
qed

lemma in_range_dash_writes:
  assumes "list_all valid_Multiline slices" "list_all (within start' (start' + int w)) slices"
  shows "in_range (nat (Max (set (levels slices)) + 1)) w (dash_writes start' slices)"
  unfolding in_range_def
proof (clarify)
  fix r c ch
  assume "(r, c, ch) \<in> set (dash_writes start' slices)"
  then obtain s l where sl: "s \<in> set slices" "l \<in> set (Multiline.lines s)" "r = Line.level l"
      "Multiline.start s \<le> start' + c" "start' + c < Multiline.stop s"
    by (auto simp: set_dash_writes)
  from assms(2) sl(1) have w: "within start' (start' + int w) s" by (simp add: list_all_iff)
  from level_bound[OF assms(1) sl(1,2)] sl(3)
  have "0 \<le> r" "r < int (nat (Max (set (levels slices)) + 1))" by simp_all
  moreover have "0 \<le> c" "c < int w" using w sl(4,5) by (simp_all add: within_def)
  ultimately show "0 \<le> r \<and> r < int (nat (Max (set (levels slices)) + 1)) \<and> 0 \<le> c \<and> c < int w"
    by simp
qed


lemma length_slice_to: "0 \<le> k \<Longrightarrow> length (slice_to t k) = min (nat k) (length t)"
  by (simp add: slice_to_def clamp_index_def)


lemma set_label_writes:
  "(r, c, ch) \<in> set (label_writes start' width' slices) \<longleftrightarrow>
     (\<exists>s \<in> set slices. \<exists>l \<in> set (Multiline.lines s).
        truthy (Line.type l) \<and> Line.start l = Multiline.start s \<and> r = Line.level l \<and>
        (\<exists>x < length (label_text start' width' s l).
           c = Multiline.start s - start' + int x \<and> ch = label_text start' width' s l ! x))"
  (is "?L \<longleftrightarrow> ?R")
proof -
  define g where "g = (\<lambda>s l.
      if truthy (Line.type l) \<and> Line.start l = Multiline.start s then
        map (\<lambda>(x, char). (Line.level l, Multiline.start s - start' + int x, char))
          (enumerate 0 (label_text start' width' s l))
      else [])"
  have lw: "label_writes start' width' slices
      = concat (map (\<lambda>s. concat (map (g s) (Multiline.lines s))) slices)"
    by (simp add: label_writes_def g_def)
  have LR: ?R if ?L
  proof -
    from that obtain s l where sl: "s \<in> set slices" "l \<in> set (Multiline.lines s)"
        "(r, c, ch) \<in> set (g s l)"
      unfolding lw by auto
    then obtain p where p: "truthy (Line.type l)" "Line.start l = Multiline.start s"
        "p \<in> set (enumerate 0 (label_text start' width' s l))"
        "(r, c, ch) = (Line.level l, Multiline.start s - start' + int (fst p), snd p)"
      by (auto simp: g_def split: if_splits)
    from p(3) have "fst p < length (label_text start' width' s l)"
        "snd p = label_text start' width' s l ! fst p"
      by (auto simp: in_set_enumerate_eq)
    with sl(1,2) p show ?R by auto
  qed
  have RL: ?L if ?R
  proof -
    from that obtain s l x where slx: "s \<in> set slices" "l \<in> set (Multiline.lines s)"
        "truthy (Line.type l)" "Line.start l = Multiline.start s" "r = Line.level l"
        "x < length (label_text start' width' s l)"
        "c = Multiline.start s - start' + int x" "ch = label_text start' width' s l ! x"
      by auto
    have "(x, ch) \<in> set (enumerate 0 (label_text start' width' s l))"
      using slx(6,8) by (simp add: in_set_enumerate_eq)
    then have "(r, c, ch) \<in> (\<lambda>(x, char). (Line.level l, Multiline.start s - start' + int x, char))
        ` set (enumerate 0 (label_text start' width' s l))"
      using slx(5,7) by (intro image_eqI[of _ _ "(x, ch)"]) simp_all
    then have "(r, c, ch) \<in> set (g s l)"
      using slx(3,4) by (simp add: g_def)
    then have "(r, c, ch) \<in> set (concat (map (g s) (Multiline.lines s)))"
      using slx(2) by auto
    then show ?L unfolding lw using slx(1) by auto
  qed
  from LR RL show ?thesis by blast
qed

lemma label_text_length:
  assumes "valid_Line l" "within start' (start' + int w) s"
  shows "int (length (label_text start' (int w) s l))
      = min (int (length (category l)))
          (min (Line.stop l - Line.start l) (int w - (Multiline.start s - start')))"
proof -
  define k where "k = min (Line.stop l - Line.start l) (int w - (Multiline.start s - start'))"
  have k0: "0 \<le> k"
    using assms by (simp add: valid_Line_def within_def k_def)
  then have "int (min (nat k) (length (category l))) = min (int (length (category l))) k"
    by linarith
  with k0 show ?thesis
    by (simp add: label_text_def Let_def length_slice_to k_def)
qed



lemma in_range_label_writes:
  assumes "list_all valid_Multiline slices" "list_all (within start' (start' + int w)) slices"
  shows "in_range (nat (Max (set (levels slices)) + 1)) w (label_writes start' (int w) slices)"
  unfolding in_range_def
proof (clarify)
  fix r c ch
  assume "(r, c, ch) \<in> set (label_writes start' (int w) slices)"
  then obtain s l x where slx: "s \<in> set slices" "l \<in> set (Multiline.lines s)"
      "r = Line.level l" "x < length (label_text start' (int w) s l)"
      "c = Multiline.start s - start' + int x"
    by (auto simp: set_label_writes)
  have vl: "valid_Line l" using assms(1) slx(1,2) by (auto simp: list_all_iff valid_Multiline_def)
  have wi: "within start' (start' + int w) s" using assms(2) slx(1) by (simp add: list_all_iff)
  from level_bound[OF assms(1) slx(1,2)] slx(3)
  have "0 \<le> r" "r < int (nat (Max (set (levels slices)) + 1))" by simp_all
  moreover have "0 \<le> c" using wi slx(5) by (simp add: within_def)
  moreover have "c < int w" using label_text_length[OF vl wi] slx(4,5) by linarith
  ultimately show "0 \<le> r \<and> r < int (nat (Max (set (levels slices)) + 1)) \<and> 0 \<le> c \<and> c < int w"
    by simp
qed

lemma annotate_cells:
  assumes "slices \<noteq> []" "list_all valid_Multiline slices"
    "list_all (within start' (start' + int (length line))) slices"
  shows "\<exists>D rows.
     paint_dashes start' slices (blank (Max (set (levels slices)) + 1) (int (length line))) = Inr D
     \<and> annotate start' line slices = Inr rows
     \<and> shape (nat (Max (set (levels slices)) + 1)) (length line) D
     \<and> shape (nat (Max (set (levels slices)) + 1)) (length line) rows
     \<and> (\<forall>i < nat (Max (set (levels slices)) + 1). \<forall>j < length line.
          D ! i ! j = (if dashed start' slices i j then CHR ''-'' else CHR '' ''))
     \<and> (\<forall>i < nat (Max (set (levels slices)) + 1). \<forall>j < length line.
          rows ! i ! j = last (D ! i ! j # written (label_writes start' (int (length line)) slices) i j))"
proof -
  define top where "top = Max (set (levels slices))"
  define h where "h = nat (top + 1)"
  define w where "w = length line"
  have ne: "levels slices \<noteq> []" using assms(1,2) by (rule levels_nonempty)
  have mx: "max_py (levels slices) = Inr top" using ne by (simp add: max_py_Max top_def)
  obtain s where s: "s \<in> set slices" using assms(1) by (cases slices) auto
  then have "Multiline.lines s \<noteq> []"
    using assms(2) by (auto simp: list_all_iff valid_Multiline_def)
  then obtain l where "l \<in> set (Multiline.lines s)" by (cases "Multiline.lines s") auto
  with s have sl: "s \<in> set slices" "l \<in> set (Multiline.lines s)" by simp_all
  from level_bound[OF assms(2) sl] have top0: "0 \<le> top + 1" by (simp add: top_def)
  have sh0: "shape h w (blank (top + 1) (int w))" unfolding h_def using top0 by (rule blank_shape)
  have rd: "in_range h w (dash_writes start' slices)"
    unfolding h_def top_def w_def using assms(2,3) by (rule in_range_dash_writes)
  have rl: "in_range h w (label_writes start' (int w) slices)"
    unfolding h_def top_def w_def using assms(2,3) by (rule in_range_label_writes)
  from apply_writes_cells[OF sh0 rd] obtain D where
    D: "apply_writes (dash_writes start' slices) (blank (top + 1) (int w)) = Inr D" "shape h w D"
       "\<forall>i<h. \<forall>j<w. D ! i ! j
          = last (blank (top + 1) (int w) ! i ! j # written (dash_writes start' slices) i j)"
    by blast
  from apply_writes_cells[OF D(2) rl] obtain rows where
    R: "apply_writes (label_writes start' (int w) slices) D = Inr rows" "shape h w rows"
       "\<forall>i<h. \<forall>j<w. rows ! i ! j = last (D ! i ! j # written (label_writes start' (int w) slices) i j)"
    by blast
  have dcell: "D ! i ! j = (if dashed start' slices i j then CHR ''-'' else CHR '' '')"
    if ij: "i < h" "j < w" for i j
  proof (cases "written (dash_writes start' slices) i j = []")
    case True
    have "\<not> dashed start' slices i j"
    proof
      assume "dashed start' slices i j"
      then obtain s l where "s \<in> set slices" "l \<in> set (Multiline.lines s)"
          "int i = Line.level l" "Multiline.start s \<le> start' + int j"
          "start' + int j < Multiline.stop s"
        unfolding dashed_def by auto
      then have "(int i, int j, CHR ''-'') \<in> set (dash_writes start' slices)"
        unfolding set_dash_writes by blast
      then have "CHR ''-'' \<in> set (written (dash_writes start' slices) i j)"
        by (simp add: set_written)
      with True show False by simp
    qed
    with True D(3) ij show ?thesis by (simp add: blank_cell h_def)
  next
    case False
    then have "last (written (dash_writes start' slices) i j) \<in> set (written (dash_writes start' slices) i j)"
      by simp
    then have m: "(int i, int j, last (written (dash_writes start' slices) i j)) \<in> set (dash_writes start' slices)"
      by (simp add: set_written)
    then obtain s l where "last (written (dash_writes start' slices) i j) = CHR ''-''"
        "s \<in> set slices" "l \<in> set (Multiline.lines s)" "Line.level l = int i"
        "Multiline.start s \<le> start' + int j" "start' + int j < Multiline.stop s"
      unfolding set_dash_writes by auto
    then have "last (written (dash_writes start' slices) i j) = CHR ''-''" "dashed start' slices i j"
      unfolding dashed_def by blast+
    with False D(3) ij show ?thesis by simp
  qed
  have ann: "annotate start' line slices = Inr rows"
    using assms(1) mx D(1) R(1)
    by (simp add: annotate_def Let_def paint_dashes_writes paint_labels_writes w_def)
  show ?thesis
    using D(1,2) R(2,3) ann dcell
    unfolding h_def top_def w_def paint_dashes_writes by blast
qed


subsection \<open>The whole rendering\<close>

lemma shape_rows: "shape h w M \<Longrightarrow> row \<in> set M \<Longrightarrow> length row = w"
  by (auto simp: shape_def in_set_conv_nth)

lemma length_replace_tab: "length (replace_tab line) = length line"
  by (simp add: replace_tab_def)

lemma annotate_total:
  assumes "list_all valid_Multiline ms" "select ms a (a + int (length c)) index [] = (slices, index')"
  shows "\<exists>rows. annotate a c slices = Inr rows \<and> (\<forall>row \<in> set rows. length row = length c)"
proof (cases "slices = []")
  case True
  then show ?thesis by (simp add: annotate_def)
next
  case False
  have le: "a \<le> a + int (length c)" by simp
  from select_slices[OF assms(2) le assms(1)]
  have "list_all (within a (a + int (length c))) slices" "list_all valid_Multiline slices"
    by simp_all
  from annotate_cells[OF False this(2,1)] show ?thesis
    using shape_rows by blast
qed

lemma as_ascii_loop_total:
  "list_all valid_Multiline ms \<Longrightarrow> contiguous s triples \<Longrightarrow>
   \<exists>blocks. as_ascii_loop ms index triples = Inr blocks
     \<and> map fst blocks = map (\<lambda>t. replace_tab (content t)) triples
     \<and> (\<forall>(line, rows) \<in> set blocks. \<forall>row \<in> set rows. length row = length line)"
proof (induction triples arbitrary: s index)
  case Nil
  then show ?case by simp
next
  case (Cons t triples)
  obtain a b c where t: "t = (a, b, c)" by (cases t)
  from Cons.prems(2) t have b: "b = a + int (length c)" and rest: "contiguous b triples"
    by auto
  obtain slices index' where sel: "select ms a (a + int (length c)) index [] = (slices, index')"
    by (cases "select ms a (a + int (length c)) index []")
  from annotate_total[OF Cons.prems(1) sel] obtain rows where
    rows: "annotate a c slices = Inr rows" "\<forall>row \<in> set rows. length row = length c"
    by blast
  from Cons.IH[OF Cons.prems(1) rest, of index'] obtain blocks where
    blocks: "as_ascii_loop ms index' triples = Inr blocks"
      "map fst blocks = map (\<lambda>t. replace_tab (content t)) triples"
      "\<forall>(line, rows) \<in> set blocks. \<forall>row \<in> set rows. length row = length line"
    by blast
  have "as_ascii_loop ms index (t # triples) = Inr ((replace_tab c, rows) # blocks)"
    using sel rows(1) blocks(1) by (simp add: t b)
  with rows(2) blocks(2,3) show ?case
    by (simp add: t length_replace_tab)
qed

lemma as_ascii_blocks_total:
  assumes "valid_AsciiMarkup self"
  shows "\<exists>triples blocks.
     Wrapper_call tw (wrapper self) (text' self) = Inr triples
     \<and> as_ascii_blocks tw self = Inr blocks
     \<and> map fst blocks = map (\<lambda>t. replace_tab (content t)) triples
     \<and> (\<forall>(line, rows) \<in> set blocks. \<forall>row \<in> set rows. length row = length line)"
proof -
  from assms have w: "0 < width (wrapper self)" and v: "list_all valid_Multiline (multilines self)"
    by (simp_all add: valid_AsciiMarkup_def)
  from Wrapper_call_contiguous[OF w, of tw "text' self"] obtain triples where
    tr: "Wrapper_call tw (wrapper self) (text' self) = Inr triples" "contiguous 0 triples"
    by blast
  from as_ascii_loop_total[OF v tr(2), of 0] tr(1) show ?thesis
    by (auto simp: as_ascii_blocks_def)
qed

text \<open>
  Claim C6. For a document with a positive wrap width whose groups each have a row and
  whose rows have \<open>start < stop\<close> and a level that is not negative, draining
  \<^verbatim>\<open>as_ascii\<close> raises nothing, whatever the text and whatever folds the library returns:
  the maximum is taken of a sequence that is not empty, and no cell assignment of
  either painting pass falls outside the matrix.
\<close>

theorem as_ascii_total:
  assumes "valid_AsciiMarkup self"
  shows "\<exists>out. as_ascii tw self = Inr out"
  using as_ascii_blocks_total[OF assms, of tw] by (auto simp: as_ascii_def)

theorem as_ascii_total_witness:
  "valid_AsciiMarkup wrap_scenario
   \<and> as_ascii chop wrap_scenario = Inr [''abcde'', ''   LB'', ''fghij'', ''-----'', ''kl'']"
proof -
  have v: "valid_AsciiMarkup wrap_scenario"
    by (simp add: valid_AsciiMarkup_def wrap_scenario_def AsciiMarkup_init_def Markup_init_def
        wrap_groups_def valid_Multiline_def valid_Line_def Let_def)
  from as_ascii_total[OF v, of chop] obtain out where o: "as_ascii chop wrap_scenario = Inr out"
    by blast
  have "as_ascii chop wrap_scenario = Inr [''abcde'', ''   LB'', ''fghij'', ''-----'', ''kl'']"
    by code_simp
  with v o show ?thesis by simp
qed

text \<open>
  Claim C8. For such a document the generator yields, wrapped line by wrapped line, the
  line's content (the fold with its tabs replaced) and then its annotation rows, and
  every annotation row is exactly as long as the content of its line.
\<close>

theorem as_ascii_rows_aligned:
  assumes "valid_AsciiMarkup self"
  shows "\<exists>triples blocks.
     Wrapper_call tw (wrapper self) (text' self) = Inr triples
     \<and> as_ascii tw self = Inr (concat (map (\<lambda>(line, rows). line # rows) blocks))
     \<and> map fst blocks = map (\<lambda>t. replace_tab (content t)) triples
     \<and> (\<forall>(line, rows) \<in> set blocks. \<forall>row \<in> set rows. length row = length line)"
proof -
  from as_ascii_blocks_total[OF assms, of tw] obtain triples blocks where
    b: "Wrapper_call tw (wrapper self) (text' self) = Inr triples"
       "as_ascii_blocks tw self = Inr blocks"
       "map fst blocks = map (\<lambda>t. replace_tab (content t)) triples"
       "\<forall>(line, rows) \<in> set blocks. \<forall>row \<in> set rows. length row = length line"
    by blast
  from b(2) have "as_ascii tw self = Inr (concat (map (\<lambda>(line, rows). line # rows) blocks))"
    by (simp add: as_ascii_def)
  with b(1,3,4) show ?thesis by blast
qed

theorem as_ascii_rows_aligned_witness:
  "valid_AsciiMarkup (overlap_scenario 3)
   \<and> as_ascii_blocks chop (overlap_scenario 3)
       = Inr [(''ab '', [''X--'', ''---'']), (''cd'', [''- '', ''- ''])]
   \<and> as_ascii chop (overlap_scenario 3) = Inr [''ab '', ''X--'', ''---'', ''cd'', ''- '', ''- '']"
proof -
  have v: "valid_AsciiMarkup (overlap_scenario 3)"
    by (simp add: valid_AsciiMarkup_def overlap_scenario_def AsciiMarkup_init_def Markup_init_def
        overlap_groups_def valid_Multiline_def valid_Line_def Let_def)
  from as_ascii_rows_aligned[OF v, of chop] obtain blocks where
    "as_ascii chop (overlap_scenario 3) = Inr (concat (map (\<lambda>(line, rows). line # rows) blocks))"
    by blast
  moreover have "as_ascii_blocks chop (overlap_scenario 3)
       = Inr [(''ab '', [''X--'', ''---'']), (''cd'', [''- '', ''- ''])]"
    by code_simp
  moreover have "as_ascii chop (overlap_scenario 3)
       = Inr [''ab '', ''X--'', ''---'', ''cd'', ''- '', ''- '']"
    by code_simp
  ultimately show ?thesis using v by simp
qed

subsection \<open>What one wrapped line shows\<close>









end
